theory Spec2Isabelle
  imports Main
begin

section \<open>Data model of jsonlines2tei.py\<close>

text \<open>
  A document is one parsed JSON line.  The keys \<open>doc_key\<close>, \<open>sentences\<close> and
  \<open>clusters\<close> are always read; \<open>pos\<close> and \<open>paragraphs\<close> are tested with
  \<open>in doc\<close> before they are read, so they are optional fields.  A mention is a
  two-element JSON array \<open>[start, end]\<close> (the annotation loop unpacks it as
  \<open>for start, end in cluster\<close>), a paragraph marker is a two-element array of
  which only the second component is read.  Python integers are unbounded; a string
  is the list of its characters.
\<close>

type_synonym mention = "int \<times> int"

type_synonym cluster = "mention list"

record doc =
  doc_key :: string
  sentences :: "string list list"
  clusters :: "cluster list"
  pos :: "string list list option"
  paragraphs :: "(int \<times> int) list option"

text \<open>The only exception the conversion itself can raise on such a document.\<close>

datatype error = IndexError

section \<open>Python primitives used by the script\<close>

text \<open>\<open>str(n)\<close> and the \<open>{n}\<close> of an f-string, for integers: decimal notation.\<close>

definition digit_char :: "nat \<Rightarrow> char" where
  "digit_char d = ''0123456789'' ! d"

fun str_nat :: "nat \<Rightarrow> string" where
  "str_nat n =
     (if n < 10 then [digit_char n]
      else str_nat (n div 10) @ [digit_char (n mod 10)])"

declare str_nat.simps [simp del]

definition str_int :: "int \<Rightarrow> string" where
  "str_int i = (if i < 0 then CHR ''-'' # str_nat (nat (- i)) else str_nat (nat i))"

text \<open>\<open>sep.join(xs)\<close>.\<close>

fun join :: "string \<Rightarrow> string list \<Rightarrow> string" where
  "join sep [] = []"
| "join sep [x] = x"
| "join sep (x # y # ys) = x @ sep @ join sep (y # ys)"

text \<open>
  \<open>xs[a:b]\<close>: a negative bound counts from the end, and both bounds are clipped
  to the list, so a slice never raises.
\<close>

definition slice_index :: "nat \<Rightarrow> int \<Rightarrow> nat" where
  "slice_index n i = (if i < 0 then nat (max (i + int n) 0) else min (nat i) n)"

definition py_slice :: "'a list \<Rightarrow> int \<Rightarrow> int \<Rightarrow> 'a list" where
  "py_slice xs a b =
     (let lo = slice_index (length xs) a; hi = slice_index (length xs) b
      in take (hi - lo) (drop lo xs))"

text \<open>\<open>xs[0]\<close> and \<open>xs[i]\<close> for \<open>i \<ge> 0\<close>: out of range raises \<open>IndexError\<close>.\<close>

fun item0 :: "'a list \<Rightarrow> error + 'a" where
  "item0 [] = Inl IndexError"
| "item0 (x # xs) = Inr x"

definition item :: "'a list \<Rightarrow> nat \<Rightarrow> error + 'a" where
  "item xs i = (if i < length xs then Inr (xs ! i) else Inl IndexError)"

text \<open>
  \<open>sorted(xs, key=key, reverse=True)\<close>: descending by key, and stable, that is,
  elements with equal keys keep their original relative order.
\<close>

fun insort_desc :: "('a \<Rightarrow> nat) \<Rightarrow> 'a \<Rightarrow> 'a list \<Rightarrow> 'a list" where
  "insort_desc key x [] = [x]"
| "insort_desc key x (y # ys) =
     (if key y \<le> key x then x # y # ys else y # insort_desc key x ys)"

definition sorted_reverse :: "('a \<Rightarrow> nat) \<Rightarrow> 'a list \<Rightarrow> 'a list" where
  "sorted_reverse key xs = foldr (insort_desc key) xs []"

text \<open>\<open>len(x)\<close> of a mention \<open>x = [start, end]\<close>: the length of the two-element list.\<close>

definition len_mention :: "mention \<Rightarrow> nat" where
  "len_mention x = length [fst x, snd x]"

text \<open>
  A comprehension whose element expression may raise: the elements are evaluated
  in order and the first exception ends the evaluation.
\<close>

fun collect :: "('a \<Rightarrow> error + 'b) \<Rightarrow> 'a list \<Rightarrow> error + 'b list" where
  "collect f [] = Inr []"
| "collect f (x # xs) =
     (case f x of
        Inl e \<Rightarrow> Inl e
      | Inr y \<Rightarrow> (case collect f xs of Inl e \<Rightarrow> Inl e | Inr ys \<Rightarrow> Inr (y # ys)))"

section \<open>Referent names: \<open>_get_refnames\<close>\<close>

text \<open>
  The dictionary \<open>clusters\<close> is keyed by \<open>id(cluster)\<close>.  The clusters of a parsed
  document are distinct live objects, so the keys are pairwise distinct and the
  dictionary keeps them in insertion order: it is modelled as the association list of
  (position of the cluster in \<open>doc['clusters']\<close>, name).
\<close>

definition first_name :: "string list \<Rightarrow> cluster \<Rightarrow> error + string" where
  "first_name tokens cluster =
     (case item0 cluster of
        Inl e \<Rightarrow> Inl e
      | Inr m \<Rightarrow> Inr (join '' '' (py_slice tokens (fst m) (snd m + 1))))"

definition get_longest :: "string list \<Rightarrow> cluster \<Rightarrow> error + string list" where
  "get_longest tokens cluster =
     (let cluster = sorted_reverse (\<lambda>x. len_mention x) cluster
      in case item0 cluster of
           Inl e \<Rightarrow> Inl e
         | Inr m \<Rightarrow> Inr (py_slice tokens (fst m) (snd m + 1)))"

definition longest_name :: "string list \<Rightarrow> cluster \<Rightarrow> error + string" where
  "longest_name tokens cluster =
     (case get_longest tokens cluster of
        Inl e \<Rightarrow> Inl e
      | Inr ts \<Rightarrow> Inr (join '' '' ts))"

text \<open>
  The inner loop \<open>while name not in used: name += str(counter); counter += 1\<close>.
  Nothing bounds it in general, so not returning is the value \<open>None\<close>.
\<close>

partial_function (option) suffix_loop :: "string set \<Rightarrow> string \<Rightarrow> int \<Rightarrow> (string \<times> int) option" where
  "suffix_loop used name counter =
     (if name \<notin> used then suffix_loop used (name @ str_int counter) (counter + 1)
      else Some (name, counter))"

declare suffix_loop.simps [code]

text \<open>
  The loop \<open>for cluster, name in clusters.items()\<close> with the set \<open>used\<close>; the
  result is the dictionary after the loop.
\<close>

fun dedup_loop :: "string set \<Rightarrow> (nat \<times> string) list \<Rightarrow> (nat \<times> string) list option" where
  "dedup_loop used [] = Some []"
| "dedup_loop used ((cluster, name) # items) =
     (if name \<in> used then
        (case suffix_loop used name 1 of
           None \<Rightarrow> None
         | Some (name', counter) \<Rightarrow>
             map_option ((#) (cluster, name')) (dedup_loop (insert name' used) items))
      else map_option ((#) (cluster, name)) (dedup_loop (insert name used) items))"

definition get_refnames :: "doc \<Rightarrow> bool \<Rightarrow> (error + (nat \<times> string) list) option" where
  "get_refnames doc first =
     (let tokens = concat (sentences doc)
      in case (if first then collect (first_name tokens) (clusters doc)
               else collect (longest_name tokens) (clusters doc)) of
           Inl e \<Rightarrow> Some (Inl e)
         | Inr names \<Rightarrow> map_option Inr (dedup_loop {} (zip [0..<length names] names)))"

section \<open>XML escaping: \<open>xml.sax.saxutils.escape\<close>\<close>

text \<open>
  \<open>data.replace(old, new)\<close> for a one-character \<open>old\<close>, and the library's
  \<open>escape\<close> with no extra entities: the ampersand first, then the two angle brackets.
\<close>

definition replace_char :: "char \<Rightarrow> string \<Rightarrow> string \<Rightarrow> string" where
  "replace_char old new data = concat (map (\<lambda>x. if x = old then new else [x]) data)"

definition escape :: "string \<Rightarrow> string" where
  "escape data =
     (let data = replace_char (CHR ''&'') ''&amp;'' data;
          data = replace_char (CHR ''>'') ''&gt;'' data;
          data = replace_char (CHR ''<'') ''&lt;'' data
      in data)"

section \<open>The text body: \<open>_build_text\<close>\<close>

text \<open>
  The inner loop \<open>for t_local, token in enumerate(sent)\<close>; its state is the running
  token index \<open>t\<close> and the output \<open>res\<close>.  \<open>doc["pos"][s][t_local]\<close> raises
  \<open>IndexError\<close> when the tags do not cover the token.
\<close>

fun token_loop ::
  "string list list option \<Rightarrow> nat \<Rightarrow> nat \<Rightarrow> string list \<Rightarrow> int \<times> string \<Rightarrow> error + int \<times> string" where
  \<open>token_loop pos_tags s t_local [] (t, res) = Inr (t, res)\<close>
| \<open>token_loop pos_tags s t_local (token # sent) (t, res) =
     (let res = res @ ''<w id="w_export_'' @ str_int t @ ''" n="'' @ str_int t @ ''">'';
          res = res @ ''<txm:form>'' @ escape token @ ''</txm:form>''
      in case (case pos_tags of
                 None \<Rightarrow> Inr res
               | Some tags \<Rightarrow>
                   (case item tags s of
                      Inl e \<Rightarrow> Inl e
                    | Inr row \<Rightarrow>
                        (case item row t_local of
                           Inl e \<Rightarrow> Inl e
                         | Inr tag \<Rightarrow>
                             Inr (res @ ''<txm:ana resp="#txm" type="#frpos">'' @ escape tag
                                  @ ''</txm:ana>'')))) of
           Inl e \<Rightarrow> Inl e
         | Inr res \<Rightarrow> token_loop pos_tags s (t_local + 1) sent (t + 1, res @ ''</w>''))\<close>

text \<open>
  The test \<open>pars is not None and t-1 in pars and p < len(pars)-1\<close> made after
  each sentence.
\<close>

definition new_paragraph :: "int set option \<Rightarrow> int \<Rightarrow> int \<Rightarrow> bool" where
  "new_paragraph pars t p =
     (case pars of None \<Rightarrow> False | Some ps \<Rightarrow> t - 1 \<in> ps \<and> p < int (card ps) - 1)"

text \<open>
  The outer loop \<open>for s, sent in enumerate(doc['sentences'])\<close>; its state is
  \<open>t\<close>, the paragraph counter \<open>p\<close> and \<open>res\<close>.
\<close>

fun sentence_loop ::
  "string list list option \<Rightarrow> int set option \<Rightarrow> nat \<Rightarrow> string list list \<Rightarrow>
   int \<times> int \<times> string \<Rightarrow> error + int \<times> int \<times> string" where
  \<open>sentence_loop pos_tags pars s [] (t, p, res) = Inr (t, p, res)\<close>
| \<open>sentence_loop pos_tags pars s (sent # sents) (t, p, res) =
     (case token_loop pos_tags s 0 sent (t, res @ ''<s n="'' @ str_nat s @ ''">'') of
        Inl e \<Rightarrow> Inl e
      | Inr (t, res) \<Rightarrow>
          (let res = res @ ''</s>''
           in if new_paragraph pars t p
              then sentence_loop pos_tags pars (s + 1) sents (t, p + 1, res @ ''</p><p>'')
              else sentence_loop pos_tags pars (s + 1) sents (t, p, res)))\<close>

definition build_text :: "doc \<Rightarrow> error + string" where
  "build_text doc =
     (let pars = (case paragraphs doc of None \<Rightarrow> None | Some ps \<Rightarrow> Some (snd ` set ps));
          t = 0;
          p = 0;
          res = ''<text>'';
          res = res @ ''<p>''
      in case sentence_loop (pos doc) pars 0 (sentences doc) (t, p, res) of
           Inl e \<Rightarrow> Inl e
         | Inr (t, p, res) \<Rightarrow> Inr (res @ ''</p>'' @ ''</text>''))"

section \<open>The stand-off annotations: \<open>_build_urs\<close>\<close>

text \<open>
  The loop \<open>for start, end in cluster\<close> of the first pass; its state is the
  mention counter \<open>m\<close> and the two outputs \<open>res\<close> and \<open>div\<close> (here \<open>div'\<close>).  The second
  literal of the \<open>REF\<close> line has no \<open>f\<close> prefix in the source, so its braces are
  ordinary characters.
\<close>

fun mention_loop :: "cluster \<Rightarrow> nat \<times> string \<times> string \<Rightarrow> nat \<times> string \<times> string" where
  \<open>mention_loop [] (m, res, div') = (m, res, div')\<close>
| \<open>mention_loop ((start, end) # cluster) (m, res, div') =
     (let res = res @ ''<span id="u-MENTION-'' @ str_nat m @ ''" from="text:w_export_''
                @ str_int start @ ''" '' @ ''to="text:w_export_'' @ str_int end
                @ ''" ana="#u-MENTION-'' @ str_nat m @ ''-fs"/>'';
          div' = div' @ ''<fs id="u-MENTION-'' @ str_nat m @ ''-fs">'';
          div' = div' @ ''<f name="REF"><string>'' @ ''{escape(names[id(cluster)])}</string></f>'';
          div' = div' @ ''</fs>''
      in mention_loop cluster (m + 1, res, div'))\<close>

fun unit_loop :: "cluster list \<Rightarrow> nat \<times> string \<times> string \<Rightarrow> nat \<times> string \<times> string" where
  "unit_loop [] st = st"
| "unit_loop (cluster # cs) st = unit_loop cs (mention_loop cluster st)"

text \<open>
  The second pass \<open>for c, cluster in enumerate(doc['clusters'])\<close>; its state is
  \<open>offset\<close> and the two outputs.
\<close>

fun schema_loop :: "nat \<Rightarrow> cluster list \<Rightarrow> nat \<times> string \<times> string \<Rightarrow> nat \<times> string \<times> string" where
  \<open>schema_loop c [] (offset, res, div') = (offset, res, div')\<close>
| \<open>schema_loop c (cluster # cs) (offset, res, div') =
     (let target = join '' '' (map (\<lambda>m. ''#u-MENTION-'' @ str_nat (m + offset)) [0..<length cluster]);
          offset' = offset + length cluster;
          res = res @ ''<link id="s-CHAINE-'' @ str_nat c @ ''" target="'' @ target @ ''" ''
                @ ''ana="#s-CHAINE-'' @ str_nat c @ ''-fs"/>'';
          div' = div' @ ''<fs id="s-CHAINE-'' @ str_nat c @ ''-fs">'';
          div' = div' @ ''<f name="REF"><string>'' @ ''{escape(names[id(cluster)])}</string></f>'';
          div' = div' @ ''<f name="NB MAILLONS"><string>'' @ str_nat (length cluster)
                @ ''</string></f>'';
          div' = div' @ ''</fs>''
      in schema_loop (c + 1) cs (offset', res, div'))\<close>

definition build_urs :: "doc \<Rightarrow> bool \<Rightarrow> (error + string) option" where
  \<open>build_urs doc first =
     (case get_refnames doc first of
        None \<Rightarrow> None
      | Some (Inl e) \<Rightarrow> Some (Inl e)
      | Some (Inr names) \<Rightarrow>
          (let div' = ''<div type="unit-fs">'';
               res = ''<annotationGrp type="Unit" subtype="MENTION">'';
               (m, res, div') = unit_loop (clusters doc) (0, res, div');
               res = res @ ''</annotationGrp>'';
               div' = div' @ ''</div>'';
               div' = div' @ ''<div type="relation-fs"/>'';
               res = res @ ''<annotationGrp type="Schema" subtype="CHAINE">'';
               div' = div' @ ''<div type="schema-fs">'';
               (offset, res, div') = schema_loop 0 (clusters doc) (0, res, div');
               res = res @ ''</annotationGrp>'';
               div' = div' @ ''</div>''
           in Some (Inr (''<standOff><annotations type="coreference">'' @ res @ div'
                         @ ''</annotations></standOff>''))))\<close>

section \<open>The two documents and their files: \<open>_get_teis\<close>, \<open>jsonlines2tei\<close>\<close>

definition get_teis :: "doc \<Rightarrow> string \<Rightarrow> string \<Rightarrow> string \<times> string" where
  \<open>get_teis doc xml_text xml_urs =
     (let header = ''<teiHeader><fileDesc><titleStmt><title>'' @ doc_key doc
                   @ ''</title></titleStmt></fileDesc></teiHeader>'';
          text = ''<?xml version="1.0" encoding="UTF-8"?>''
                 @ ''<TEI xmlns="http://www.tei-c.org/ns/1.0" xmlns:txm="http://textometrie.org/1.0">''
                 @ header @ xml_text @ ''</TEI>'';
          urs = ''<?xml version="1.0" encoding="UTF-8"?>''
                @ ''<tei:TEI xmlns:tei="http://www.tei-c.org/ns/1.0">''
                @ header @ ''<text></text>'' @ xml_urs @ ''</tei:TEI>''
      in (text, urs))\<close>

text \<open>
  \<open>re.sub(r'[^-a-zA-Z0-9_]', '_', fn)\<close>: the ranges of the class are ranges of
  code points.
\<close>

definition in_class :: "char \<Rightarrow> bool" where
  "in_class c =
     (let n = (of_char c :: nat)
      in c = CHR ''-'' \<or> (97 \<le> n \<and> n \<le> 122) \<or> (65 \<le> n \<and> n \<le> 90)
         \<or> (48 \<le> n \<and> n \<le> 57) \<or> c = CHR ''_'')"

definition sub_not_in_class :: "string \<Rightarrow> string" where
  "sub_not_in_class fn = map (\<lambda>c. if in_class c then c else CHR ''_'') fn"

text \<open>
  \<open>re.sub(r'_+', '_', fn)\<close>: scanning from the left, each maximal run of
  underscores is one match and is replaced by one underscore.
\<close>

function sub_underscores :: "string \<Rightarrow> string" where
  "sub_underscores [] = []"
| "sub_underscores (c # cs) =
     (if c = CHR ''_'' then CHR ''_'' # sub_underscores (dropWhile (\<lambda>x. x = CHR ''_'') cs)
      else c # sub_underscores cs)"
  by pat_completeness auto
termination
  by (relation "measure length") (auto simp: less_Suc_eq_le length_dropWhile_le)

text \<open>\<open>os.path.join(a, b)\<close> on a POSIX system.\<close>

definition path_join :: "string \<Rightarrow> string \<Rightarrow> string" where
  "path_join a b =
     (if b \<noteq> [] \<and> hd b = CHR ''/'' then b
      else if a = [] \<or> last a = CHR ''/'' then a @ b
      else a @ ''/'' @ b)"

text \<open>
  \<open>jsonlines2tei\<close>: the result is the list of the files written, each with its path
  and its content, in the order of the two \<open>write\<close> calls.  The arguments of
  \<open>_get_teis\<close> are evaluated from left to right, so an exception of \<open>_build_text\<close>
  comes first.
\<close>

definition jsonlines2tei ::
  "doc \<Rightarrow> string \<Rightarrow> string \<Rightarrow> bool \<Rightarrow> (error + (string \<times> string) list) option" where
  "jsonlines2tei doc xml_dir urs_dir first =
     (case build_text doc of
        Inl e \<Rightarrow> Some (Inl e)
      | Inr body \<Rightarrow>
          (case build_urs doc first of
             None \<Rightarrow> None
           | Some (Inl e) \<Rightarrow> Some (Inl e)
           | Some (Inr standoff) \<Rightarrow>
               (let (xml_text, xml_urs) = get_teis doc body standoff;
                    fn = doc_key doc;
                    fn = sub_not_in_class fn;
                    fn = sub_underscores fn
                in Some (Inr [(path_join xml_dir (fn @ ''.xml''), xml_text),
                              (path_join urs_dir (fn @ ''-urs.xml''), xml_urs)]))))"

section \<open>Reading the output\<close>

text \<open>
  The renderers build strings.  The definitions of this section name the pieces of
  those strings, so that the theorems below can say which piece stands where.
\<close>

subsection \<open>Referent names\<close>

text \<open>The text of a mention: its tokens \<open>tokens[start:end+1]\<close> joined by spaces.\<close>

definition mention_text :: "string list \<Rightarrow> mention \<Rightarrow> string" where
  "mention_text tokens m = join '' '' (py_slice tokens (fst m) (snd m + 1))"

subsection \<open>Text body\<close>

text \<open>The sum of the lengths of all sentences before sentence \<open>s\<close>.\<close>

definition tok_offset :: "string list list \<Rightarrow> nat \<Rightarrow> int" where
  "tok_offset sents s = int (sum_list (map length (take s sents)))"

text \<open>The identifier of the token with global index \<open>T\<close>.\<close>

definition w_id :: "int \<Rightarrow> string" where
  "w_id T = ''w_export_'' @ str_int T"

definition tag_of :: "string list list option \<Rightarrow> nat \<Rightarrow> nat \<Rightarrow> string option" where
  "tag_of pos_tags s i = map_option (\<lambda>tags. tags ! s ! i) pos_tags"

text \<open>
  The content of the \<open>w\<close> element of a token with an optional tag, and the element
  itself for the token with global index \<open>T\<close>.
\<close>

definition w_content :: "string option \<Rightarrow> string \<Rightarrow> string" where
  \<open>w_content tag token =
     ''<txm:form>'' @ escape token @ ''</txm:form>''
     @ (case tag of
          None \<Rightarrow> []
        | Some g \<Rightarrow> ''<txm:ana resp="#txm" type="#frpos">'' @ escape g @ ''</txm:ana>'')\<close>

definition w_element :: "string option \<Rightarrow> int \<Rightarrow> string \<Rightarrow> string" where
  \<open>w_element tag T token =
     ''<w id="'' @ w_id T @ ''" n="'' @ str_int T @ ''">'' @ w_content tag token @ ''</w>''\<close>

text \<open>
  The tags cover the first \<open>n\<close> tokens of sentence \<open>s\<close>; a sentence without
  tokens reads no tag.  \<open>pos_ok\<close>: the tags, when present, cover every token.
\<close>

definition tags_cover :: "string list list option \<Rightarrow> nat \<Rightarrow> nat \<Rightarrow> bool" where
  "tags_cover pos_tags s n =
     (case pos_tags of
        None \<Rightarrow> True
      | Some tags \<Rightarrow> n = 0 \<or> (s < length tags \<and> n \<le> length (tags ! s)))"

definition pos_ok :: "doc \<Rightarrow> bool" where
  "pos_ok doc =
     list_all (\<lambda>s. tags_cover (pos doc) s (length (sentences doc ! s)))
       [0..<length (sentences doc)]"

text \<open>The \<open>s\<close> element of sentence \<open>s\<close>.\<close>

definition s_element :: "string list list option \<Rightarrow> string list list \<Rightarrow> nat \<Rightarrow> string" where
  \<open>s_element pos_tags sents s =
     ''<s n="'' @ str_nat s @ ''">''
     @ concat (map (\<lambda>t_local. w_element (tag_of pos_tags s t_local)
                               (tok_offset sents s + int t_local) (sents ! s ! t_local))
                 [0..<length (sents ! s)])
     @ ''</s>''\<close>

text \<open>
  The set \<open>pars\<close> of the boundary indices of a document.  Sentence \<open>s\<close> is
  \<open>at_boundary\<close> when the index of the last token emitted up to the end of that
  sentence is a boundary index; \<open>boundaries_before\<close> counts the sentences before
  \<open>s\<close> that are; \<open>par_limit\<close> is \<open>len(pars) - 1\<close>.
\<close>

definition pars_of :: "doc \<Rightarrow> int set option" where
  "pars_of doc = (case paragraphs doc of None \<Rightarrow> None | Some ps \<Rightarrow> Some (snd ` set ps))"

definition at_boundary :: "int set option \<Rightarrow> string list list \<Rightarrow> nat \<Rightarrow> bool" where
  "at_boundary pars sents s =
     (case pars of None \<Rightarrow> False | Some ps \<Rightarrow> tok_offset sents (Suc s) - 1 \<in> ps)"

definition par_limit :: "int set option \<Rightarrow> int" where
  "par_limit pars = (case pars of None \<Rightarrow> 0 | Some ps \<Rightarrow> int (card ps) - 1)"

definition boundaries_before :: "int set option \<Rightarrow> string list list \<Rightarrow> nat \<Rightarrow> nat" where
  "boundaries_before pars sents s = length (filter (at_boundary pars sents) [0..<s])"

definition p_break :: "int set option \<Rightarrow> string list list \<Rightarrow> nat \<Rightarrow> string" where
  "p_break pars sents s =
     (if at_boundary pars sents s \<and> int (boundaries_before pars sents s) < par_limit pars
      then ''</p><p>'' else [])"

definition text_body :: "doc \<Rightarrow> string" where
  "text_body doc =
     concat (map (\<lambda>s. s_element (pos doc) (sentences doc) s
                       @ p_break (pars_of doc) (sentences doc) s)
               [0..<length (sentences doc)])"

text \<open>
  Character data is free of markup: no angle bracket, and every ampersand starts one
  of the three entity references.
\<close>

fun entities_only :: "string \<Rightarrow> bool" where
  "entities_only [] = True"
| "entities_only (c # cs) =
     ((if c = CHR ''&''
       then take 4 cs = ''amp;'' \<or> take 3 cs = ''gt;'' \<or> take 3 cs = ''lt;''
       else True)
      \<and> entities_only cs)"

definition no_markup :: "string \<Rightarrow> bool" where
  "no_markup data = (CHR ''<'' \<notin> set data \<and> CHR ''>'' \<notin> set data \<and> entities_only data)"

text \<open>
  Markup made of the tags of sentences and tokens only: every \<open><\<close> is followed
  by the first two characters of an opening or closing \<open>s\<close>, \<open>w\<close> or
  \<open>txm:\<close> tag.
\<close>

definition known_tags :: "string list" where
  "known_tags = [''s '', ''w '', ''tx'', ''/s'', ''/w'', ''/t'']"

fun tags_known :: "string \<Rightarrow> bool" where
  "tags_known [] = True"
| "tags_known (c # cs) =
     ((if c = CHR ''<'' then take 2 cs \<in> set known_tags else True) \<and> tags_known cs)"

subsection \<open>Stand-off annotations\<close>

text \<open>
  The number of the \<open>j\<close>-th mention of cluster \<open>c\<close>: the number of mentions of
  all clusters before \<open>c\<close>, plus \<open>j\<close>.
\<close>

definition mention_id :: "cluster list \<Rightarrow> nat \<Rightarrow> nat \<Rightarrow> nat" where
  "mention_id cs c j = sum_list (map length (take c cs)) + j"

definition mention_ref :: "nat \<Rightarrow> string" where
  "mention_ref m = ''u-MENTION-'' @ str_nat m"

definition chain_ref :: "nat \<Rightarrow> string" where
  "chain_ref c = ''s-CHAINE-'' @ str_nat c"

definition span_element :: "nat \<Rightarrow> mention \<Rightarrow> string" where
  \<open>span_element m x =
     ''<span id="'' @ mention_ref m @ ''" from="text:'' @ w_id (fst x)
     @ ''" to="text:'' @ w_id (snd x) @ ''" ana="#'' @ mention_ref m @ ''-fs"/>''\<close>

definition mention_fs :: "nat \<Rightarrow> string" where
  \<open>mention_fs m =
     ''<fs id="'' @ mention_ref m @ ''-fs">''
     @ ''<f name="REF"><string>{escape(names[id(cluster)])}</string></f>'' @ ''</fs>''\<close>

definition link_element :: "nat \<Rightarrow> nat list \<Rightarrow> string" where
  \<open>link_element c ms =
     ''<link id="'' @ chain_ref c @ ''" target="''
     @ join '' '' (map (\<lambda>m. ''#'' @ mention_ref m) ms)
     @ ''" ana="#'' @ chain_ref c @ ''-fs"/>''\<close>

definition chain_fs :: "nat \<Rightarrow> nat \<Rightarrow> string" where
  \<open>chain_fs c n =
     ''<fs id="'' @ chain_ref c @ ''-fs">''
     @ ''<f name="REF"><string>{escape(names[id(cluster)])}</string></f>''
     @ ''<f name="NB MAILLONS"><string>'' @ str_nat n @ ''</string></f>'' @ ''</fs>''\<close>

definition spans_of :: "cluster list \<Rightarrow> string" where
  "spans_of cs =
     concat (map (\<lambda>c. concat (map (\<lambda>j. span_element (mention_id cs c j) (cs ! c ! j))
                                [0..<length (cs ! c)]))
               [0..<length cs])"

definition unit_fs_of :: "cluster list \<Rightarrow> string" where
  "unit_fs_of cs =
     concat (map (\<lambda>c. concat (map (\<lambda>j. mention_fs (mention_id cs c j)) [0..<length (cs ! c)]))
               [0..<length cs])"

definition links_of :: "cluster list \<Rightarrow> string" where
  "links_of cs =
     concat (map (\<lambda>c. link_element c (map (mention_id cs c) [0..<length (cs ! c)]))
               [0..<length cs])"

definition schema_fs_of :: "cluster list \<Rightarrow> string" where
  "schema_fs_of cs = concat (map (\<lambda>c. chain_fs c (length (cs ! c))) [0..<length cs])"

text \<open>The stand-off element around the four parts.\<close>

definition urs_document :: "string \<Rightarrow> string \<Rightarrow> string \<Rightarrow> string \<Rightarrow> string" where
  \<open>urs_document spans links unit_fs schema_fs =
     ''<standOff><annotations type="coreference">''
     @ (''<annotationGrp type="Unit" subtype="MENTION">'' @ spans @ ''</annotationGrp>''
        @ ''<annotationGrp type="Schema" subtype="CHAINE">'' @ links @ ''</annotationGrp>'')
     @ (''<div type="unit-fs">'' @ unit_fs @ ''</div>'' @ ''<div type="relation-fs"/>''
        @ ''<div type="schema-fs">'' @ schema_fs @ ''</div>'')
     @ ''</annotations></standOff>''\<close>

subsection \<open>File names\<close>

text \<open>
  Collapsing every run of consecutive underscores into one underscore, said
  directly: an underscore that is followed by another one is dropped.
\<close>

fun collapse_runs :: "string \<Rightarrow> string" where
  "collapse_runs [] = []"
| "collapse_runs [c] = [c]"
| "collapse_runs (a # b # cs) =
     (if a = CHR ''_'' \<and> b = CHR ''_'' then collapse_runs (b # cs)
      else a # collapse_runs (b # cs))"

text \<open>No two underscores stand side by side.\<close>

fun no_run :: "string \<Rightarrow> bool" where
  "no_run [] = True"
| "no_run [c] = True"
| "no_run (a # b # cs) = ((a \<noteq> CHR ''_'' \<or> b \<noteq> CHR ''_'') \<and> no_run (b # cs))"

definition stem :: "doc \<Rightarrow> string" where
  "stem doc = sub_underscores (sub_not_in_class (doc_key doc))"

section \<open>Example documents\<close>

text \<open>Two clusters whose first mention is the same token \<open>A\<close>.\<close>

definition doc_two_A :: doc where
  "doc_two_A = \<lparr>doc_key = ''d1'', sentences = [ [''A'', ''B''], [''C''] ],
     clusters = [ [(0, 0)], [(0, 0), (2, 2)] ], pos = None, paragraphs = None\<rparr>"

text \<open>One cluster whose second mention spans more tokens than its first.\<close>

definition doc_long_second :: doc where
  "doc_long_second = \<lparr>doc_key = ''d2'', sentences = [ [''A'', ''B'', ''C''] ],
     clusters = [ [(0, 0), (1, 2)] ], pos = None, paragraphs = None\<rparr>"

text \<open>A document with an empty cluster.\<close>

definition doc_empty_cluster :: doc where
  "doc_empty_cluster = \<lparr>doc_key = ''d3'', sentences = [ [''A'', ''B''] ],
     clusters = [ [(0, 0)], [] ], pos = None, paragraphs = None\<rparr>"

text \<open>One sentence of one token, one cluster of one mention.\<close>

definition doc_single :: doc where
  "doc_single = \<lparr>doc_key = ''d4'', sentences = [ [''A''] ],
     clusters = [ [(0, 0)] ], pos = None, paragraphs = None\<rparr>"

text \<open>
  A document with tags and two paragraphs, the first ending with token 1 and the
  second with token 2; two of its strings need escaping.
\<close>

definition doc_tagged :: doc where
  "doc_tagged = \<lparr>doc_key = ''nw/docname:01'', sentences = [ [''A'', ''B<&''], [''C''] ],
     clusters = [ [(0, 0), (2, 2)], [(1, 2)] ],
     pos = Some [ [''X'', ''Y''], [''Z>''] ], paragraphs = Some [(0, 1), (2, 2)]\<rparr>"

text \<open>
  A document of one sentence whose boundary indices 0 and 1 are indices of tokens
  inside that sentence, and 7 is the index of no token.
\<close>

definition doc_mid_boundary :: doc where
  "doc_mid_boundary = \<lparr>doc_key = ''d5'', sentences = [ [''A'', ''B'', ''C''] ],
     clusters = [], pos = None, paragraphs = Some [(0, 0), (1, 1), (2, 7)]\<rparr>"

section \<open>Properties of the referent namer\<close>

lemma suffix_loop_used: "name \<in> used \<Longrightarrow> suffix_loop used name counter = Some (name, counter)"
  by (subst suffix_loop.simps) simp

text \<open>
  The loop over the dictionary enters \<open>suffix_loop\<close> only with a name that is in
  \<open>used\<close>, where it returns at once: the loop always returns, and it returns the
  dictionary it was given.
\<close>

lemma dedup_loop_same: "dedup_loop used items = Some items"
proof (induction items arbitrary: used)
  case Nil
  show ?case by simp
next
  case (Cons it items)
  obtain k name where it: "it = (k, name)" by (cases it)
  show ?case
    by (simp add: it suffix_loop_used Cons.IH)
qed

lemma sorted_reverse_const:
  assumes "\<And>x. key x = c"
  shows "sorted_reverse key xs = xs"
proof -
  have step: "insort_desc key x ys = x # ys" for x ys
    by (cases ys) (simp_all add: assms)
  show ?thesis
    unfolding sorted_reverse_def by (induction xs) (simp_all add: step)
qed

lemma longest_name_first_name: "longest_name tokens cluster = first_name tokens cluster"
proof -
  have "sorted_reverse (\<lambda>x. len_mention x) cluster = cluster"
    by (rule sorted_reverse_const [where c = 2]) (simp add: len_mention_def)
  then show ?thesis
    by (simp add: longest_name_def first_name_def get_longest_def split: sum.splits)
qed

lemma get_refnames_collect:
  "get_refnames doc first =
     (case collect (first_name (concat (sentences doc))) (clusters doc) of
        Inl e \<Rightarrow> Some (Inl e)
      | Inr names \<Rightarrow> Some (Inr (zip [0..<length names] names)))"
proof -
  have "collect (longest_name tokens) cs = collect (first_name tokens) cs" for tokens cs
    by (induction cs) (simp_all add: longest_name_first_name)
  then show ?thesis
    by (simp add: get_refnames_def Let_def dedup_loop_same split: sum.splits)
qed

lemma first_name_simps:
  "first_name tokens [] = Inl IndexError"
  "first_name tokens (m # ms) = Inr (mention_text tokens m)"
  by (simp_all add: first_name_def mention_text_def)

lemma collect_first_name:
  "collect (first_name tokens) cs =
     (if [] \<in> set cs then Inl IndexError
      else Inr (map (\<lambda>cluster. mention_text tokens (hd cluster)) cs))"
proof (induction cs)
  case Nil
  show ?case by simp
next
  case (Cons cluster cs)
  show ?case
  proof (cases cluster)
    case Nil
    then show ?thesis by (simp add: first_name_simps)
  next
    case (Cons m ms)
    then show ?thesis by (simp add: first_name_simps Cons.IH)
  qed
qed

lemma get_refnames_empty:
  "[] \<in> set (clusters doc) \<Longrightarrow> get_refnames doc first = Some (Inl IndexError)"
  by (simp add: get_refnames_collect collect_first_name)

lemma get_refnames_nonempty:
  "[] \<notin> set (clusters doc) \<Longrightarrow>
   get_refnames doc first =
     Some (Inr (zip [0..<length (clusters doc)]
                  (map (\<lambda>cluster. mention_text (concat (sentences doc)) (hd cluster))
                     (clusters doc))))"
  by (simp add: get_refnames_collect collect_first_name)

text \<open>
  Claim C1.  The claim: after deduplication the names of the clusters of a document
  are pairwise distinct, and a second cluster whose candidate name \<open>A\<close> collides with
  the first cluster's name receives \<open>A1\<close>.  The code: the suffix loop is entered only
  when the name is in \<open>used\<close> and runs only while the name is not in \<open>used\<close>, so
  it never runs.  For the document whose two clusters both start with the token \<open>A\<close>,
  both clusters are named \<open>A\<close>: two clusters, one name.
\<close>

theorem get_refnames_duplicate_names:
  "get_refnames doc_two_A True = Some (Inr [(0, ''A''), (1, ''A'')])
   \<and> length (clusters doc_two_A) = 2
   \<and> card (snd ` set [(0 :: nat, ''A''), (1, ''A'')]) = 1"
  by (simp add: get_refnames_def doc_two_A_def first_name_def py_slice_def slice_index_def
      suffix_loop_used)

text \<open>
  Claim C3.  The claim: in LONGEST mode the candidate name of a cluster is the text
  of the mention that spans the most tokens.  The code sorts the mentions by
  \<open>len(x)\<close>, the length of the list \<open>[start, end]\<close>, so for the cluster
  \<open>[ [0, 0], [1, 2] ]\<close> over the tokens \<open>A B C\<close> the name is \<open>A\<close>, the text of the
  first mention, where the longest mention reads \<open>B C\<close>.
\<close>

theorem get_refnames_longest_is_first:
  "get_refnames doc_long_second False = Some (Inr [(0, ''A'')])
   \<and> mention_text (concat (sentences doc_long_second)) (1, 2) = ''B C''"
  by (simp add: get_refnames_def doc_long_second_def longest_name_def get_longest_def
      sorted_reverse_def len_mention_def mention_text_def py_slice_def slice_index_def)

text \<open>
  Claim C7.  The mode flag changes nothing: \<open>_get_refnames\<close> returns the same
  mapping (or raises the same exception) with \<open>first=True\<close> and with
  \<open>first=False\<close>, because every mention has the same sort key and the stable sort
  keeps the first mention in front; hence the stand-off annotations and the two
  files written are the same in both modes.
\<close>

theorem mode_independence:
  "sorted_reverse (\<lambda>x. len_mention x) cluster = cluster
   \<and> get_refnames doc True = get_refnames doc False
   \<and> build_urs doc True = build_urs doc False
   \<and> jsonlines2tei doc xml_dir urs_dir True = jsonlines2tei doc xml_dir urs_dir False"
proof -
  have sort: "sorted_reverse (\<lambda>x. len_mention x) cluster = cluster"
    by (rule sorted_reverse_const [where c = 2]) (simp add: len_mention_def)
  have names: "get_refnames doc True = get_refnames doc False"
    by (simp add: get_refnames_collect)
  have urs: "build_urs doc True = build_urs doc False"
    by (simp add: build_urs_def names)
  show ?thesis
    unfolding jsonlines2tei_def urs using sort names by simp
qed

text \<open>
  Claim C8.  In both modes \<open>_get_refnames\<close> raises \<open>IndexError\<close> exactly when some
  cluster of the document is empty; when every cluster has a mention it returns a
  name for each cluster, the text of the cluster's first mention.
\<close>

theorem get_refnames_raises_iff_empty_cluster:
  "(get_refnames doc first = Some (Inl IndexError)) = ([] \<in> set (clusters doc))
   \<and> ([] \<notin> set (clusters doc) \<longrightarrow>
        get_refnames doc first =
          Some (Inr (zip [0..<length (clusters doc)]
                       (map (\<lambda>cluster. mention_text (concat (sentences doc)) (hd cluster))
                          (clusters doc)))))"
proof (cases "[] \<in> set (clusters doc)")
  case True
  then show ?thesis by (simp add: get_refnames_empty)
next
  case False
  then show ?thesis by (simp add: get_refnames_nonempty)
qed

theorem get_refnames_raises_iff_empty_cluster_witness:
  "[] \<notin> set (clusters doc_two_A)
   \<and> get_refnames doc_two_A False = Some (Inr [(0, ''A''), (1, ''A'')])
   \<and> [] \<in> set (clusters doc_empty_cluster)
   \<and> get_refnames doc_empty_cluster False = Some (Inl IndexError)"
proof -
  have a: "[] \<notin> set (clusters doc_two_A)" by (simp add: doc_two_A_def)
  have b: "[] \<in> set (clusters doc_empty_cluster)" by (simp add: doc_empty_cluster_def)
  have c: "zip [0..<length (clusters doc_two_A)]
             (map (\<lambda>cluster. mention_text (concat (sentences doc_two_A)) (hd cluster))
                (clusters doc_two_A)) = [(0, ''A''), (1, ''A'')]"
    by (simp add: doc_two_A_def mention_text_def py_slice_def slice_index_def upt_rec)
  show ?thesis
    using a b c get_refnames_raises_iff_empty_cluster [of doc_two_A False]
      get_refnames_raises_iff_empty_cluster [of doc_empty_cluster False]
    by simp
qed

section \<open>Properties of the text renderer\<close>

subsection \<open>Escaping\<close>

lemma escape_Nil: "escape [] = []"
  by (simp add: escape_def replace_char_def)

lemma escape_Cons:
  "escape (c # data) =
     (if c = CHR ''&'' then ''&amp;''
      else if c = CHR ''>'' then ''&gt;''
      else if c = CHR ''<'' then ''&lt;''
      else [c]) @ escape data"
  by (simp add: escape_def replace_char_def)

lemma escape_no_markup: "no_markup (escape data)"
  by (induction data) (simp_all add: escape_Nil escape_Cons no_markup_def)

subsection \<open>The loops in closed form\<close>

lemma map_upt_Suc0: "map f [0..<Suc n] = f 0 # map (\<lambda>i. f (Suc i)) [0..<n]"
  by (simp add: upt_conv_Cons map_Suc_upt [symmetric] del: upt_Suc)

lemma token_loop_step:
  assumes "tags_cover pos_tags s (Suc t_local)"
  shows "token_loop pos_tags s t_local (token # sent) (t, res) =
     token_loop pos_tags s (Suc t_local) sent
       (t + 1, res @ w_element (tag_of pos_tags s t_local) t token)"
proof (cases pos_tags)
  case None
  show ?thesis by (simp add: None w_element_def w_content_def w_id_def tag_of_def)
next
  case (Some tags)
  have "s < length tags \<and> t_local < length (tags ! s)"
    using assms by (simp add: tags_cover_def Some)
  then show ?thesis by (simp add: Some w_element_def w_content_def w_id_def tag_of_def item_def)
qed

lemma tags_cover_mono: "tags_cover pos_tags s n \<Longrightarrow> m \<le> n \<Longrightarrow> tags_cover pos_tags s m"
  by (auto simp: tags_cover_def split: option.splits)

lemma token_loop_closed:
  assumes "tags_cover pos_tags s (t_local + length sent)"
  shows "token_loop pos_tags s t_local sent (t, res) =
     Inr (t + int (length sent),
          res @ concat (map (\<lambda>i. w_element (tag_of pos_tags s (t_local + i)) (t + int i) (sent ! i))
                          [0..<length sent]))"
  using assms
proof (induction sent arbitrary: t_local t res)
  case Nil
  show ?case by simp
next
  case (Cons token sent)
  have cover: "tags_cover pos_tags s (Suc t_local + length sent)"
    using Cons.prems by simp
  have here: "tags_cover pos_tags s (Suc t_local)"
    by (rule tags_cover_mono [OF cover]) simp
  have "token_loop pos_tags s t_local (token # sent) (t, res) =
      token_loop pos_tags s (Suc t_local) sent
        (t + 1, res @ w_element (tag_of pos_tags s t_local) t token)"
    by (rule token_loop_step [OF here])
  also have "\<dots> = Inr (t + 1 + int (length sent),
      (res @ w_element (tag_of pos_tags s t_local) t token)
      @ concat (map (\<lambda>i. w_element (tag_of pos_tags s (Suc t_local + i)) (t + 1 + int i) (sent ! i))
                  [0..<length sent]))"
    by (rule Cons.IH [OF cover])
  also have "\<dots> = Inr (t + int (length (token # sent)),
      res @ concat (map (\<lambda>i. w_element (tag_of pos_tags s (t_local + i)) (t + int i) ((token # sent) ! i))
                      [0..<length (token # sent)]))"
    by (simp add: map_upt_Suc0 ac_simps del: upt_Suc)
  finally show ?case .
qed

lemma tok_offset_Suc:
  "s < length sents \<Longrightarrow> tok_offset sents (Suc s) = tok_offset sents s + int (length (sents ! s))"
  by (simp add: tok_offset_def take_Suc_conv_app_nth)

lemma new_paragraph_boundary:
  "new_paragraph pars (tok_offset sents (Suc s)) p = (at_boundary pars sents s \<and> p < par_limit pars)"
  by (simp add: new_paragraph_def at_boundary_def par_limit_def split: option.splits)

lemma sentence_loop_step:
  assumes s: "s < length sents" and sent: "sents ! s = sent"
    and cover: "tags_cover pos_tags s (length sent)"
  shows "sentence_loop pos_tags pars s (sent # todo) (tok_offset sents s, p, res) =
     sentence_loop pos_tags pars (Suc s) todo
       (tok_offset sents (Suc s),
        (if at_boundary pars sents s \<and> p < par_limit pars then p + 1 else p),
        res @ s_element pos_tags sents s
            @ (if at_boundary pars sents s \<and> p < par_limit pars then ''</p><p>'' else []))"
proof -
  have tl: "token_loop pos_tags s 0 sent (t, r) =
      Inr (t + int (length sent),
           r @ concat (map (\<lambda>i. w_element (tag_of pos_tags s i) (t + int i) (sent ! i))
                         [0..<length sent]))" for t r
    using token_loop_closed [of pos_tags s 0 sent t r] cover by simp
  show ?thesis
    by (simp add: tl tok_offset_Suc [OF s] sent new_paragraph_boundary [symmetric]
        s_element_def del: upt_Suc)
qed

text \<open>
  The invariant of the outer loop: with the sentences \<open>done\<close> behind it, \<open>t\<close>
  is their number of tokens and \<open>p\<close> is the number of them that ended at a boundary,
  capped at \<open>len(pars) - 1\<close>.
\<close>

lemma sentence_loop_closed:
  assumes "sents = done @ todo"
    and "\<forall>s<length sents. tags_cover pos_tags s (length (sents ! s))"
    and "p = min (int (boundaries_before pars sents (length done))) (max (par_limit pars) 0)"
  shows "\<exists>p'. sentence_loop pos_tags pars (length done) todo
                 (tok_offset sents (length done), p, res) =
     Inr (tok_offset sents (length sents), p',
          res @ concat (map (\<lambda>s. s_element pos_tags sents s @ p_break pars sents s)
                          [length done..<length sents]))"
  using assms
proof (induction todo arbitrary: "done" p res)
  case Nil
  then show ?case by simp
next
  case (Cons sent todo)
  let ?s = "length done"
  let ?b = "at_boundary pars sents ?s \<and> p < par_limit pars"
  let ?p = "if ?b then p + 1 else p"
  let ?res = "res @ s_element pos_tags sents ?s @ (if ?b then ''</p><p>'' else [])"
  have s: "?s < length sents" and sent: "sents ! ?s = sent"
    using Cons.prems(1) by simp_all
  have cover: "tags_cover pos_tags ?s (length sent)"
    using Cons.prems(2) s sent by auto
  have split: "sents = (done @ [sent]) @ todo"
    using Cons.prems(1) by simp
  have count: "boundaries_before pars sents (Suc ?s) =
      boundaries_before pars sents ?s + (if at_boundary pars sents ?s then 1 else 0)"
    by (simp add: boundaries_before_def)
  have brk: "?b = (at_boundary pars sents ?s
      \<and> int (boundaries_before pars sents ?s) < par_limit pars)"
    using Cons.prems(3) by auto
  have inv: "?p = min (int (boundaries_before pars sents (length (done @ [sent]))))
      (max (par_limit pars) 0)"
    using Cons.prems(3) by (auto simp: count)
  obtain p' where run: "sentence_loop pos_tags pars (length (done @ [sent])) todo
        (tok_offset sents (length (done @ [sent])), ?p, ?res) =
      Inr (tok_offset sents (length sents), p',
           ?res @ concat (map (\<lambda>s. s_element pos_tags sents s @ p_break pars sents s)
                            [length (done @ [sent])..<length sents]))"
    using Cons.IH [OF split Cons.prems(2) inv] by blast
  have here: "?res = res @ s_element pos_tags sents ?s @ p_break pars sents ?s"
    using brk by (simp add: p_break_def)
  have "sentence_loop pos_tags pars ?s (sent # todo) (tok_offset sents ?s, p, res) =
      sentence_loop pos_tags pars (Suc ?s) todo (tok_offset sents (Suc ?s), ?p, ?res)"
    by (rule sentence_loop_step [OF s sent cover])
  also have "\<dots> = Inr (tok_offset sents (length sents), p',
      ?res @ concat (map (\<lambda>s. s_element pos_tags sents s @ p_break pars sents s)
                       [Suc ?s..<length sents]))"
    using run by simp
  also have "\<dots> = Inr (tok_offset sents (length sents), p',
      res @ concat (map (\<lambda>s. s_element pos_tags sents s @ p_break pars sents s)
                      [?s..<length sents]))"
    using s by (simp only: here upt_conv_Cons [OF s] list.map concat.simps append_assoc)
  finally show ?case by blast
qed

lemma build_text_closed:
  assumes "pos_ok doc"
  shows "build_text doc = Inr (''<text><p>'' @ text_body doc @ ''</p></text>'')"
proof -
  let ?none = "[] :: string list list"
  have cover: "\<forall>s<length (sentences doc). tags_cover (pos doc) s (length (sentences doc ! s))"
    using assms by (simp add: pos_ok_def list_all_iff)
  have p0: "(0::int) = min (int (boundaries_before (pars_of doc) (sentences doc) (length ?none)))
      (max (par_limit (pars_of doc)) 0)"
    by (simp add: boundaries_before_def)
  obtain p' where "sentence_loop (pos doc) (pars_of doc) (length ?none) (sentences doc)
        (tok_offset (sentences doc) (length ?none), 0, ''<text><p>'') =
      Inr (tok_offset (sentences doc) (length (sentences doc)), p',
           ''<text><p>'' @ concat (map (\<lambda>s. s_element (pos doc) (sentences doc) s
                                             @ p_break (pars_of doc) (sentences doc) s)
                                     [length ?none..<length (sentences doc)]))"
    using sentence_loop_closed [of "sentences doc" ?none "sentences doc" "pos doc" 0
        "pars_of doc" "''<text><p>''"] cover p0
    by auto
  then have "sentence_loop (pos doc) (pars_of doc) 0 (sentences doc) (0, 0, ''<text><p>'') =
      Inr (tok_offset (sentences doc) (length (sentences doc)), p', ''<text><p>'' @ text_body doc)"
    by (simp add: tok_offset_def text_body_def)
  then show ?thesis
    by (simp add: build_text_def pars_of_def [symmetric])
qed

lemma nth_concat_offset:
  "s < length xss \<Longrightarrow> i < length (xss ! s) \<Longrightarrow>
   sum_list (map length (take s xss)) + i < length (concat xss)
   \<and> concat xss ! (sum_list (map length (take s xss)) + i) = xss ! s ! i"
proof (induction xss arbitrary: s)
  case Nil
  then show ?case by simp
next
  case (Cons xs xss)
  show ?case
  proof (cases s)
    case 0
    then show ?thesis using Cons.prems by (simp add: nth_append)
  next
    case (Suc s')
    then show ?thesis using Cons.prems Cons.IH [of s'] by (simp add: nth_append)
  qed
qed

subsection \<open>When the renderer raises\<close>

text \<open>
  The renderer raises \<open>IndexError\<close> as soon as a token has no tag; \<open>pos_ok\<close>
  is exactly the condition under which it returns.
\<close>

lemma token_loop_error:
  assumes "tags_cover pos_tags s t_local"
    and "\<not> tags_cover pos_tags s (t_local + length sent)"
  shows "token_loop pos_tags s t_local sent (t, res) = Inl IndexError"
  using assms
proof (induction sent arbitrary: t_local t res)
  case Nil
  then show ?case by simp
next
  case (Cons token sent)
  show ?case
  proof (cases "tags_cover pos_tags s (Suc t_local)")
    case True
    have "\<not> tags_cover pos_tags s (Suc t_local + length sent)"
      using Cons.prems(2) by simp
    then show ?thesis
      using token_loop_step [OF True] Cons.IH [OF True] by simp
  next
    case False
    then obtain tags where tags: "pos_tags = Some tags"
      and short: "\<not> (s < length tags \<and> t_local < length (tags ! s))"
      by (auto simp: tags_cover_def split: option.splits)
    show ?thesis
      using short by (auto simp: tags item_def)
  qed
qed

lemma sentence_loop_error:
  assumes "\<exists>i<length todo. \<not> tags_cover pos_tags (s + i) (length (todo ! i))"
  shows "sentence_loop pos_tags pars s todo (t, p, res) = Inl IndexError"
  using assms
proof (induction todo arbitrary: s t p res)
  case Nil
  then show ?case by simp
next
  case (Cons sent todo)
  show ?case
  proof (cases "tags_cover pos_tags s (length sent)")
    case False
    have start: "tags_cover pos_tags s 0"
      by (simp add: tags_cover_def split: option.splits)
    have "token_loop pos_tags s 0 sent (t, r) = Inl IndexError" for r
      using token_loop_error [OF start, of sent t r] False by simp
    then show ?thesis by simp
  next
    case True
    obtain i where i: "i < length (sent # todo)"
      and bad: "\<not> tags_cover pos_tags (s + i) (length ((sent # todo) ! i))"
      using Cons.prems by blast
    have "i \<noteq> 0" using bad True by (cases i) auto
    then obtain j where j: "i = Suc j" by (cases i) auto
    have rest: "\<exists>i<length todo. \<not> tags_cover pos_tags (Suc s + i) (length (todo ! i))"
      using i bad j by auto
    have run: "token_loop pos_tags s 0 sent (t, r) =
        Inr (t + int (length sent),
             r @ concat (map (\<lambda>i. w_element (tag_of pos_tags s i) (t + int i) (sent ! i))
                           [0..<length sent]))" for r
      using token_loop_closed [of pos_tags s 0 sent t r] True by simp
    show ?thesis
      by (simp add: run Let_def Cons.IH [OF rest] del: upt_Suc)
  qed
qed

lemma build_text_error:
  assumes "\<not> pos_ok doc"
  shows "build_text doc = Inl IndexError"
proof -
  have "\<exists>i<length (sentences doc).
      \<not> tags_cover (pos doc) (0 + i) (length (sentences doc ! i))"
    using assms by (auto simp: pos_ok_def list_all_iff)
  then have "sentence_loop (pos doc) pars 0 (sentences doc) (t, p, res) = Inl IndexError"
    for pars t p res
    by (rule sentence_loop_error)
  then show ?thesis
    by (simp add: build_text_def)
qed

lemma build_text_total:
  "build_text doc =
     (if pos_ok doc then Inr (''<text><p>'' @ text_body doc @ ''</p></text>'')
      else Inl IndexError)"
  by (simp add: build_text_closed build_text_error)

subsection \<open>No paragraph tag inside the sentences\<close>

lemma tags_known_append:
  "tags_known a \<Longrightarrow> tags_known (a @ b) = tags_known b"
proof (induction a)
  case Nil
  show ?case by simp
next
  case (Cons c a)
  have "take 2 (a @ b) = take 2 a" if "take 2 a \<in> set known_tags"
  proof -
    have "\<forall>k \<in> set known_tags. length k = 2"
      by (simp add: known_tags_def)
    then have "length (take 2 a) = 2"
      using that by blast
    then have "2 \<le> length a" by simp
    then show ?thesis by simp
  qed
  then show ?case using Cons by auto
qed



lemma tags_known_plain: "CHR ''<'' \<notin> set a \<Longrightarrow> tags_known a"
  by (induction a) auto

lemma tags_known_concat: "(\<And>x. x \<in> set xs \<Longrightarrow> tags_known x) \<Longrightarrow> tags_known (concat xs)"
  by (induction xs) (simp_all add: tags_known_append)

lemma tags_known_at:
  "tags_known (pre @ CHR ''<'' # rest) \<Longrightarrow> take 2 rest \<in> set known_tags"
  by (induction pre) (auto split: if_splits)

lemma str_nat_digits: "set (str_nat n) \<subseteq> set ''0123456789''"
proof (induction n rule: str_nat.induct)
  case (1 n)
  have digit: "digit_char d \<in> set ''0123456789''" if "d < 10" for d
    unfolding digit_char_def by (rule nth_mem) (use that in simp)
  show ?case
  proof (cases "n < 10")
    case True
    then show ?thesis using digit [of n] by (subst str_nat.simps) simp
  next
    case False
    have "set (str_nat (n div 10)) \<subseteq> set ''0123456789''"
      using "1.IH" False by simp
    then show ?thesis
      using digit [of "n mod 10"] False by (subst str_nat.simps) simp
  qed
qed

lemma str_nat_plain: "CHR ''<'' \<notin> set (str_nat n)"
  using str_nat_digits [of n] by auto

lemma str_int_plain: "CHR ''<'' \<notin> set (str_int i)"
  by (simp add: str_int_def str_nat_plain)

lemma escape_plain: "CHR ''<'' \<notin> set (escape data)"
  using escape_no_markup [of data] by (simp add: no_markup_def)

lemma tags_known_w_element: "tags_known (w_element tag T token)"
  by (cases tag)
    (simp_all add: w_element_def w_content_def w_id_def known_tags_def
      tags_known_append tags_known_plain str_int_plain escape_plain)

lemma tags_known_s_element: "tags_known (s_element pos_tags sents s)"
proof -
  have "tags_known (concat (map (\<lambda>t_local. w_element (tag_of pos_tags s t_local)
      (tok_offset sents s + int t_local) (sents ! s ! t_local)) [0..<length (sents ! s)]))"
    by (rule tags_known_concat) (auto simp: tags_known_w_element)
  then show ?thesis
    by (simp add: s_element_def known_tags_def tags_known_append tags_known_plain
        str_nat_plain)
qed

lemma s_elements_no_p:
  "concat (map (s_element pos_tags sents) ss) \<noteq> pre @ ''<p'' @ suf"
  "concat (map (s_element pos_tags sents) ss) \<noteq> pre @ ''</p'' @ suf"
proof -
  have known: "tags_known (concat (map (s_element pos_tags sents) ss))"
    by (rule tags_known_concat) (auto simp: tags_known_s_element)
  show "concat (map (s_element pos_tags sents) ss) \<noteq> pre @ ''<p'' @ suf"
  proof
    assume "concat (map (s_element pos_tags sents) ss) = pre @ ''<p'' @ suf"
    then have "tags_known (pre @ CHR ''<'' # CHR ''p'' # suf)"
      using known by simp
    then have "take 2 (CHR ''p'' # suf) \<in> set known_tags"
      by (rule tags_known_at)
    then show False
      by (cases suf) (auto simp: known_tags_def)
  qed
  show "concat (map (s_element pos_tags sents) ss) \<noteq> pre @ ''</p'' @ suf"
  proof
    assume "concat (map (s_element pos_tags sents) ss) = pre @ ''</p'' @ suf"
    then have "tags_known (pre @ CHR ''<'' # CHR ''/'' # CHR ''p'' # suf)"
      using known by simp
    then have "take 2 (CHR ''/'' # CHR ''p'' # suf) \<in> set known_tags"
      by (rule tags_known_at)
    then show False
      by (auto simp: known_tags_def)
  qed
qed

section \<open>Properties of the annotation renderer\<close>

lemma mention_loop_closed:
  "mention_loop cluster (m, res, div') =
     (m + length cluster,
      res @ concat (map (\<lambda>j. span_element (m + j) (cluster ! j)) [0..<length cluster]),
      div' @ concat (map (\<lambda>j. mention_fs (m + j)) [0..<length cluster]))"
proof (induction cluster arbitrary: m res div')
  case Nil
  show ?case by simp
next
  case (Cons x cluster)
  obtain start "end" where x: "x = (start, end)" by (cases x)
  have step: "mention_loop (x # cluster) (m, res, div') =
      mention_loop cluster (Suc m, res @ span_element m x, div' @ mention_fs m)"
    by (simp add: x span_element_def mention_fs_def mention_ref_def w_id_def)
  show ?case
    unfolding step Cons.IH
    by (simp add: map_upt_Suc0 del: upt_Suc)
qed

lemma mention_id_Suc:
  "c < length cs \<Longrightarrow> mention_id cs (Suc c) 0 = mention_id cs c 0 + length (cs ! c)"
  by (simp add: mention_id_def take_Suc_conv_app_nth)

lemma mention_id_add: "mention_id cs c 0 + j = mention_id cs c j"
  by (simp add: mention_id_def)

text \<open>
  Both passes run over the clusters with the same counter: with the clusters
  \<open>done\<close> behind it, \<open>m\<close> in the first pass and \<open>offset\<close> in the second are
  the number of mentions of those clusters.
\<close>

lemma unit_loop_closed:
  assumes "cs = done @ todo"
  shows "unit_loop todo (mention_id cs (length done) 0, res, div') =
     (mention_id cs (length cs) 0,
      res @ concat (map (\<lambda>c. concat (map (\<lambda>j. span_element (mention_id cs c j) (cs ! c ! j))
                                       [0..<length (cs ! c)]))
                      [length done..<length cs]),
      div' @ concat (map (\<lambda>c. concat (map (\<lambda>j. mention_fs (mention_id cs c j))
                                        [0..<length (cs ! c)]))
                       [length done..<length cs]))"
  using assms
proof (induction todo arbitrary: "done" res div')
  case Nil
  then show ?case by simp
next
  case (Cons cluster todo)
  let ?c = "length done"
  have c: "?c < length cs" and cl: "cs ! ?c = cluster"
    using Cons.prems by simp_all
  have split: "cs = (done @ [cluster]) @ todo"
    using Cons.prems by simp
  have next_id: "mention_id cs ?c 0 + length cluster = mention_id cs (length (done @ [cluster])) 0"
    using mention_id_Suc [OF c] cl by simp
  show ?case
    unfolding unit_loop.simps mention_loop_closed next_id Cons.IH [OF split]
    by (simp add: upt_conv_Cons [OF c] cl mention_id_add del: upt_Suc)
qed

lemma schema_loop_closed:
  assumes "cs = done @ todo"
  shows "schema_loop (length done) todo (mention_id cs (length done) 0, res, div') =
     (mention_id cs (length cs) 0,
      res @ concat (map (\<lambda>c. link_element c (map (mention_id cs c) [0..<length (cs ! c)]))
                      [length done..<length cs]),
      div' @ concat (map (\<lambda>c. chain_fs c (length (cs ! c))) [length done..<length cs]))"
  using assms
proof (induction todo arbitrary: "done" res div')
  case Nil
  then show ?case by simp
next
  case (Cons cluster todo)
  let ?c = "length done"
  have c: "?c < length cs" and cl: "cs ! ?c = cluster"
    using Cons.prems by simp_all
  have split: "cs = (done @ [cluster]) @ todo"
    using Cons.prems by simp
  have next_id: "mention_id cs ?c 0 + length cluster = mention_id cs (length (done @ [cluster])) 0"
    using mention_id_Suc [OF c] cl by simp
  have target: "map (\<lambda>m. ''#u-MENTION-'' @ str_nat (m + mention_id cs ?c 0)) [0..<length cluster] =
      map (\<lambda>m. ''#'' @ mention_ref m) (map (mention_id cs ?c) [0..<length cluster])"
    by (simp add: mention_ref_def mention_id_def add.commute)
  have step: "schema_loop ?c (cluster # todo) (mention_id cs ?c 0, res, div') =
      schema_loop (length (done @ [cluster])) todo
        (mention_id cs (length (done @ [cluster])) 0,
         res @ link_element ?c (map (mention_id cs ?c) [0..<length cluster]),
         div' @ chain_fs ?c (length cluster))"
    unfolding schema_loop.simps Let_def target next_id
    by (simp add: link_element_def chain_fs_def chain_ref_def)
  show ?case
    unfolding step Cons.IH [OF split]
    by (simp add: upt_conv_Cons [OF c] cl del: upt_Suc)
qed

lemma build_urs_empty:
  "[] \<in> set (clusters doc) \<Longrightarrow> build_urs doc first = Some (Inl IndexError)"
  by (simp add: build_urs_def get_refnames_empty)

lemma build_urs_closed:
  assumes "[] \<notin> set (clusters doc)"
  shows "build_urs doc first =
     Some (Inr (urs_document (spans_of (clusters doc)) (links_of (clusters doc))
                  (unit_fs_of (clusters doc)) (schema_fs_of (clusters doc))))"
proof -
  let ?cs = "clusters doc"
  let ?none = "[] :: cluster list"
  have zero: "mention_id ?cs (length ?none) 0 = 0"
    by (simp add: mention_id_def)
  have unit: "unit_loop ?cs (0, res, div') =
      (mention_id ?cs (length ?cs) 0, res @ spans_of ?cs, div' @ unit_fs_of ?cs)" for res div'
    using unit_loop_closed [of ?cs ?none ?cs res div'] zero
    by (simp add: spans_of_def unit_fs_of_def)
  have schema: "schema_loop 0 ?cs (0, res, div') =
      (mention_id ?cs (length ?cs) 0, res @ links_of ?cs, div' @ schema_fs_of ?cs)" for res div'
    using schema_loop_closed [of ?cs ?none ?cs res div'] zero
    by (simp add: links_of_def schema_fs_of_def)
  show ?thesis
    by (simp add: build_urs_def get_refnames_nonempty [OF assms] unit schema urs_document_def)
qed

lemma build_urs_total:
  "build_urs doc first =
     (if [] \<in> set (clusters doc) then Some (Inl IndexError)
      else Some (Inr (urs_document (spans_of (clusters doc)) (links_of (clusters doc))
                        (unit_fs_of (clusters doc)) (schema_fs_of (clusters doc)))))"
  by (simp add: build_urs_closed build_urs_empty)

section \<open>Properties of the file names\<close>

lemma collapse_runs_underscore:
  "collapse_runs (CHR ''_'' # cs) = CHR ''_'' # collapse_runs (dropWhile (\<lambda>x. x = CHR ''_'') cs)"
proof (induction cs)
  case Nil
  show ?case by simp
next
  case (Cons b cs)
  then show ?case by (cases cs) auto
qed

lemma collapse_runs_other:
  "c \<noteq> CHR ''_'' \<Longrightarrow> collapse_runs (c # cs) = c # collapse_runs cs"
  by (cases cs) simp_all

lemma sub_underscores_collapse_runs: "sub_underscores fn = collapse_runs fn"
proof (induction fn rule: sub_underscores.induct)
  case 1
  show ?case by simp
next
  case (2 c cs)
  show ?case
  proof (cases "c = CHR ''_''")
    case True
    then show ?thesis using "2.IH"(1) by (simp add: collapse_runs_underscore)
  next
    case False
    then show ?thesis using "2.IH"(2) by (simp add: collapse_runs_other)
  qed
qed

lemma sub_underscores_subset: "set (sub_underscores fn) \<subseteq> set fn"
proof (induction fn rule: sub_underscores.induct)
  case 1
  show ?case by simp
next
  case (2 c cs)
  have "set (dropWhile (\<lambda>x. x = CHR ''_'') cs) \<subseteq> set cs"
    by (auto dest: set_dropWhileD)
  then show ?case using "2.IH" by (cases "c = CHR ''_''") auto
qed

lemma no_run_Cons:
  "no_run r \<Longrightarrow> a \<noteq> CHR ''_'' \<or> r = [] \<or> hd r \<noteq> CHR ''_'' \<Longrightarrow> no_run (a # r)"
  by (cases r) auto

lemma sub_underscores_hd:
  "fn \<noteq> [] \<Longrightarrow> sub_underscores fn \<noteq> [] \<and> hd (sub_underscores fn) = hd fn"
  by (cases fn) simp_all

lemma sub_underscores_no_run: "no_run (sub_underscores fn)"
proof (induction fn rule: sub_underscores.induct)
  case 1
  show ?case by simp
next
  case (2 c cs)
  show ?case
  proof (cases "c = CHR ''_''")
    case True
    let ?rest = "dropWhile (\<lambda>x. x = CHR ''_'') cs"
    have ih: "no_run (sub_underscores ?rest)"
      using "2.IH"(1) [OF True] .
    have front: "sub_underscores ?rest = [] \<or> hd (sub_underscores ?rest) \<noteq> CHR ''_''"
    proof (cases "?rest = []")
      case True
      have "sub_underscores ?rest = []"
        unfolding True by simp
      then show ?thesis by blast
    next
      case False
      have "hd ?rest \<noteq> CHR ''_''"
        using hd_dropWhile [OF False] .
      then show ?thesis
        using sub_underscores_hd [OF False] by simp
    qed
    have "no_run (CHR ''_'' # sub_underscores ?rest)"
      by (rule no_run_Cons [OF ih]) (use front in blast)
    then show ?thesis using True by simp
  next
    case False
    have "no_run (sub_underscores cs)"
      using "2.IH"(2) [OF False] .
    then have "no_run (c # sub_underscores cs)"
      by (rule no_run_Cons) (simp add: False)
    then show ?thesis using False by simp
  qed
qed

lemma stem_in_class: "c \<in> set (stem doc) \<Longrightarrow> in_class c"
proof -
  assume "c \<in> set (stem doc)"
  then have "c \<in> set (sub_not_in_class (doc_key doc))"
    using sub_underscores_subset by (auto simp: stem_def)
  then show "in_class c"
    by (auto simp: sub_not_in_class_def in_class_def)
qed

section \<open>Main properties of the renderers and of the driver\<close>

text \<open>
  Claim C2.  The claim: the \<open>REF\<close> feature of each mention and of each chain holds
  the (escaped) referent name of the cluster, not some fixed text.  The code: the
  second literal of each \<open>REF\<close> line lacks the \<open>f\<close> prefix, so the output holds
  the text of the expression instead of its value.  For the document with the single
  token \<open>A\<close> and the single mention \<open>[0, 0]\<close> the cluster is named \<open>A\<close>, and
  neither \<open>REF\<close> feature of the output holds \<open>A\<close>.
\<close>

theorem build_urs_ref_is_literal_text:
  \<open>get_refnames doc_single True = Some (Inr [(0, ''A'')])
   \<and> build_urs doc_single True = Some (Inr (
      ''<standOff><annotations type="coreference">''
      @ ''<annotationGrp type="Unit" subtype="MENTION">''
      @ ''<span id="u-MENTION-0" from="text:w_export_0" to="text:w_export_0" ana="#u-MENTION-0-fs"/>''
      @ ''</annotationGrp><annotationGrp type="Schema" subtype="CHAINE">''
      @ ''<link id="s-CHAINE-0" target="#u-MENTION-0" ana="#s-CHAINE-0-fs"/></annotationGrp>''
      @ ''<div type="unit-fs"><fs id="u-MENTION-0-fs"><f name="REF"><string>''
      @ ''{escape(names[id(cluster)])}</string></f></fs></div><div type="relation-fs"/>''
      @ ''<div type="schema-fs"><fs id="s-CHAINE-0-fs"><f name="REF"><string>''
      @ ''{escape(names[id(cluster)])}</string></f><f name="NB MAILLONS"><string>1</string>''
      @ ''</f></fs></div></annotations></standOff>''))\<close>
  by (simp add: build_urs_def get_refnames_def first_name_def py_slice_def slice_index_def
      doc_single_def str_nat.simps str_int_def digit_char_def)

text \<open>
  Claim C4.  The text renderer returns exactly when the tags, if any, cover every
  token, and then the token at position \<open>t_local\<close> of sentence \<open>s\<close> gets the
  identifier \<open>w_export_T\<close> where \<open>T\<close> is the sum of the lengths of the sentences
  before \<open>s\<close> plus \<open>t_local\<close>; \<open>T\<close> is also the position of that token in
  the flattened token list.  The annotation renderer returns exactly when no cluster
  is empty, and then the span of a mention \<open>[start, end]\<close> refers to
  \<open>text:w_export_start\<close> and \<open>text:w_export_end\<close>, the identifiers built by the
  same \<open>w_id\<close>.
\<close>

theorem token_index_scheme:
  \<open>build_text doc =
     (if pos_ok doc then
        Inr (''<text><p>''
             @ concat (map (\<lambda>s.
                 ''<s n="'' @ str_nat s @ ''">''
                 @ concat (map (\<lambda>t_local.
                     ''<w id="'' @ w_id (tok_offset (sentences doc) s + int t_local)
                     @ ''" n="'' @ str_int (tok_offset (sentences doc) s + int t_local) @ ''">''
                     @ w_content (tag_of (pos doc) s t_local) (sentences doc ! s ! t_local)
                     @ ''</w>'')
                   [0..<length (sentences doc ! s)])
                 @ ''</s>'' @ p_break (pars_of doc) (sentences doc) s)
               [0..<length (sentences doc)])
             @ ''</p></text>'')
      else Inl IndexError)
   \<and> (\<forall>s<length (sentences doc). \<forall>t_local<length (sentences doc ! s).
         tok_offset (sentences doc) s + int t_local < int (length (concat (sentences doc)))
         \<and> concat (sentences doc) ! nat (tok_offset (sentences doc) s + int t_local)
             = sentences doc ! s ! t_local)
   \<and> build_urs doc first =
       (if [] \<in> set (clusters doc) then Some (Inl IndexError)
        else Some (Inr (urs_document
          (concat (map (\<lambda>c.
             concat (map (\<lambda>j.
               case clusters doc ! c ! j of (start, end) \<Rightarrow>
                 ''<span id="'' @ mention_ref (mention_id (clusters doc) c j)
                 @ ''" from="text:'' @ w_id start @ ''" to="text:'' @ w_id end
                 @ ''" ana="#'' @ mention_ref (mention_id (clusters doc) c j) @ ''-fs"/>'')
               [0..<length (clusters doc ! c)]))
             [0..<length (clusters doc)]))
          (links_of (clusters doc)) (unit_fs_of (clusters doc))
          (schema_fs_of (clusters doc)))))\<close>
proof -
  have index: "tok_offset (sentences doc) s + int t_local < int (length (concat (sentences doc)))
      \<and> concat (sentences doc) ! nat (tok_offset (sentences doc) s + int t_local)
          = sentences doc ! s ! t_local"
    if "s < length (sentences doc)" and "t_local < length (sentences doc ! s)" for s t_local
    using nth_concat_offset [OF that] by (simp add: tok_offset_def nat_add_distrib)
  show ?thesis
    using index
    by (simp add: build_text_total build_urs_total text_body_def s_element_def w_element_def
        spans_of_def span_element_def case_prod_beta)
qed

theorem token_index_scheme_witness:
  \<open>pos_ok doc_two_A \<and> [] \<notin> set (clusters doc_two_A)
   \<and> build_text doc_two_A = Inr (
      ''<text><p><s n="0"><w id="w_export_0" n="0"><txm:form>A</txm:form></w>''
      @ ''<w id="w_export_1" n="1"><txm:form>B</txm:form></w></s><s n="1">''
      @ ''<w id="w_export_2" n="2"><txm:form>C</txm:form></w></s></p></text>'')
   \<and> concat (sentences doc_two_A) ! 2 = sentences doc_two_A ! 1 ! 0
   \<and> build_urs doc_two_A True = Some (Inr (
      ''<standOff><annotations type="coreference">''
      @ ''<annotationGrp type="Unit" subtype="MENTION">''
      @ ''<span id="u-MENTION-0" from="text:w_export_0" to="text:w_export_0" ana="#u-MENTION-0-fs"/>''
      @ ''<span id="u-MENTION-1" from="text:w_export_0" to="text:w_export_0" ana="#u-MENTION-1-fs"/>''
      @ ''<span id="u-MENTION-2" from="text:w_export_2" to="text:w_export_2" ana="#u-MENTION-2-fs"/>''
      @ ''</annotationGrp><annotationGrp type="Schema" subtype="CHAINE">''
      @ ''<link id="s-CHAINE-0" target="#u-MENTION-0" ana="#s-CHAINE-0-fs"/>''
      @ ''<link id="s-CHAINE-1" target="#u-MENTION-1 #u-MENTION-2" ana="#s-CHAINE-1-fs"/>''
      @ ''</annotationGrp><div type="unit-fs"><fs id="u-MENTION-0-fs"><f name="REF"><string>''
      @ ''{escape(names[id(cluster)])}</string></f></fs><fs id="u-MENTION-1-fs"><f name="REF">''
      @ ''<string>{escape(names[id(cluster)])}</string></f></fs><fs id="u-MENTION-2-fs">''
      @ ''<f name="REF"><string>{escape(names[id(cluster)])}</string></f></fs></div>''
      @ ''<div type="relation-fs"/><div type="schema-fs"><fs id="s-CHAINE-0-fs"><f name="REF">''
      @ ''<string>{escape(names[id(cluster)])}</string></f><f name="NB MAILLONS"><string>''
      @ ''1</string></f></fs><fs id="s-CHAINE-1-fs"><f name="REF"><string>''
      @ ''{escape(names[id(cluster)])}</string></f><f name="NB MAILLONS"><string>2</string>''
      @ ''</f></fs></div></annotations></standOff>''))\<close>
proof -
  have a: "pos_ok doc_two_A"
    by (simp add: pos_ok_def tags_cover_def doc_two_A_def)
  have b: "[] \<notin> set (clusters doc_two_A)"
    by (simp add: doc_two_A_def)
  show ?thesis
    using a b token_index_scheme [of doc_two_A True]
    by (simp add: doc_two_A_def upt_rec tok_offset_def w_id_def w_content_def tag_of_def
        p_break_def at_boundary_def pars_of_def escape_def replace_char_def
        urs_document_def links_of_def unit_fs_of_def schema_fs_of_def link_element_def
        mention_fs_def chain_fs_def mention_ref_def chain_ref_def mention_id_def
        str_nat.simps str_int_def digit_char_def)
qed

text \<open>
  Claim C5.  The annotation renderer returns exactly when no cluster is empty.  Then
  mentions are numbered from 0 through all clusters without a reset; the link
  \<open>s-CHAINE-c\<close> of cluster \<open>c\<close> targets exactly the numbers given to the
  mentions of that cluster, a block of consecutive numbers as long as the cluster,
  and its feature structure holds the number of mentions of the cluster as
  \<open>NB MAILLONS\<close>.
\<close>

theorem chain_links_match_mentions:
  \<open>build_urs doc first =
     (if [] \<in> set (clusters doc) then Some (Inl IndexError)
      else Some (Inr (urs_document
        (concat (map (\<lambda>c.
           concat (map (\<lambda>j. span_element (mention_id (clusters doc) c j) (clusters doc ! c ! j))
                     [0..<length (clusters doc ! c)]))
           [0..<length (clusters doc)]))
        (concat (map (\<lambda>c.
           ''<link id="'' @ chain_ref c @ ''" target="''
           @ join '' '' (map (\<lambda>m. ''#'' @ mention_ref m)
                          [mention_id (clusters doc) c 0
                           ..<mention_id (clusters doc) c 0 + length (clusters doc ! c)])
           @ ''" ana="#'' @ chain_ref c @ ''-fs"/>'')
           [0..<length (clusters doc)]))
        (unit_fs_of (clusters doc))
        (concat (map (\<lambda>c.
           ''<fs id="'' @ chain_ref c @ ''-fs">''
           @ ''<f name="REF"><string>{escape(names[id(cluster)])}</string></f>''
           @ ''<f name="NB MAILLONS"><string>'' @ str_nat (length (clusters doc ! c))
           @ ''</string></f>'' @ ''</fs>'')
           [0..<length (clusters doc)])))))
   \<and> mention_id (clusters doc) 0 0 = 0
   \<and> (\<forall>c<length (clusters doc).
         mention_id (clusters doc) (Suc c) 0
           = mention_id (clusters doc) c 0 + length (clusters doc ! c)
         \<and> map (mention_id (clusters doc) c) [0..<length (clusters doc ! c)]
             = [mention_id (clusters doc) c 0
                ..<mention_id (clusters doc) c 0 + length (clusters doc ! c)])\<close>
proof -
  have block: "map (mention_id cs c) [0..<n] = [mention_id cs c 0..<mention_id cs c 0 + n]"
    for cs :: "cluster list" and c n
  proof -
    have "mention_id cs c = (\<lambda>j. j + mention_id cs c 0)"
      by (rule ext) (simp add: mention_id_def)
    then show ?thesis
      using map_add_upt [of "mention_id cs c 0" n] by (simp add: add.commute)
  qed
  have zero: "mention_id (clusters doc) 0 0 = 0"
    by (simp add: mention_id_def)
  show ?thesis
    unfolding build_urs_total [of doc first] spans_of_def links_of_def schema_fs_of_def
      link_element_def chain_fs_def block
    using zero mention_id_Suc [of _ "clusters doc"] by simp
qed

theorem chain_links_match_mentions_witness:
  \<open>[] \<notin> set (clusters doc_tagged)
   \<and> build_urs doc_tagged False = Some (Inr (
      ''<standOff><annotations type="coreference">''
      @ ''<annotationGrp type="Unit" subtype="MENTION">''
      @ ''<span id="u-MENTION-0" from="text:w_export_0" to="text:w_export_0" ana="#u-MENTION-0-fs"/>''
      @ ''<span id="u-MENTION-1" from="text:w_export_2" to="text:w_export_2" ana="#u-MENTION-1-fs"/>''
      @ ''<span id="u-MENTION-2" from="text:w_export_1" to="text:w_export_2" ana="#u-MENTION-2-fs"/>''
      @ ''</annotationGrp><annotationGrp type="Schema" subtype="CHAINE">''
      @ ''<link id="s-CHAINE-0" target="#u-MENTION-0 #u-MENTION-1" ana="#s-CHAINE-0-fs"/>''
      @ ''<link id="s-CHAINE-1" target="#u-MENTION-2" ana="#s-CHAINE-1-fs"/></annotationGrp>''
      @ ''<div type="unit-fs"><fs id="u-MENTION-0-fs"><f name="REF"><string>''
      @ ''{escape(names[id(cluster)])}</string></f></fs><fs id="u-MENTION-1-fs"><f name="REF">''
      @ ''<string>{escape(names[id(cluster)])}</string></f></fs><fs id="u-MENTION-2-fs">''
      @ ''<f name="REF"><string>{escape(names[id(cluster)])}</string></f></fs></div>''
      @ ''<div type="relation-fs"/><div type="schema-fs"><fs id="s-CHAINE-0-fs"><f name="REF">''
      @ ''<string>{escape(names[id(cluster)])}</string></f><f name="NB MAILLONS"><string>''
      @ ''2</string></f></fs><fs id="s-CHAINE-1-fs"><f name="REF"><string>''
      @ ''{escape(names[id(cluster)])}</string></f><f name="NB MAILLONS"><string>1</string>''
      @ ''</f></fs></div></annotations></standOff>''))
   \<and> map (mention_id (clusters doc_tagged) 1) [0..<length (clusters doc_tagged ! 1)] = [2]\<close>
proof -
  have a: "[] \<notin> set (clusters doc_tagged)"
    by (simp add: doc_tagged_def)
  show ?thesis
    using a chain_links_match_mentions [of doc_tagged False]
    by (simp add: doc_tagged_def upt_rec w_id_def
        urs_document_def span_element_def unit_fs_of_def
        mention_fs_def mention_ref_def chain_ref_def mention_id_def
        str_nat.simps str_int_def digit_char_def)
qed

text \<open>
  Claim C6.  The claim as stated puts the test for a new paragraph after every token.
  The code makes the test once per sentence, after the closing \<open></s>\<close>, on the
  index of the last token emitted so far: a boundary index that falls inside a
  sentence opens no paragraph.  In the document below the boundary indices are 0, 1
  and 7, and the only sentence has the tokens 0, 1 and 2.  After token 0 is emitted
  its index 0 is a boundary index, and so is the running index 1; the paragraph
  counter is 0 and \<open>len(pars) - 1\<close> is 2.  The output has a single paragraph.
\<close>

theorem no_paragraph_break_inside_sentence:
  \<open>pars_of doc_mid_boundary = Some {0, 1, 7}
   \<and> par_limit (pars_of doc_mid_boundary) = 2
   \<and> build_text doc_mid_boundary = Inr (
      ''<text><p><s n="0"><w id="w_export_0" n="0"><txm:form>A</txm:form></w>''
      @ ''<w id="w_export_1" n="1"><txm:form>B</txm:form></w><w id="w_export_2" n="2">''
      @ ''<txm:form>C</txm:form></w></s></p></text>'')\<close>
  by (simp add: build_text_def pars_of_def par_limit_def doc_mid_boundary_def
      new_paragraph_def escape_def replace_char_def str_nat.simps str_int_def digit_char_def)

text \<open>
  Claim C6, amended.  The text renderer returns exactly when the tags, if any, cover
  every token.  Then the paragraph is closed and a new one opened after the closing
  \<open></s>\<close> of sentence \<open>s\<close> exactly when the index of the last token emitted so
  far (the number of tokens of the sentences up to and including \<open>s\<close>, minus one)
  is a boundary index and fewer than \<open>len(pars) - 1\<close> of the sentences before
  \<open>s\<close> ended at a boundary index; nowhere else.  Without boundary data the text is
  one \<open>p\<close> element around all sentences: between its opening and its closing tag
  stand the \<open>s\<close> elements, in which neither \<open><p\<close> nor \<open></p\<close> occurs.
\<close>

theorem paragraph_breaks_after_sentences:
  \<open>build_text doc =
     (if pos_ok doc then
        Inr (''<text><p>''
             @ concat (map (\<lambda>s.
                 s_element (pos doc) (sentences doc) s
                 @ (case paragraphs doc of
                      None \<Rightarrow> []
                    | Some bs \<Rightarrow>
                        if tok_offset (sentences doc) (Suc s) - 1 \<in> snd ` set bs
                           \<and> int (boundaries_before (pars_of doc) (sentences doc) s)
                               < int (card (snd ` set bs)) - 1
                        then ''</p><p>'' else []))
               [0..<length (sentences doc)])
             @ ''</p></text>'')
      else Inl IndexError)
   \<and> (paragraphs doc = None \<longrightarrow>
        build_text doc =
          (if pos_ok doc then
             Inr (''<text><p>''
                  @ concat (map (s_element (pos doc) (sentences doc))
                              [0..<length (sentences doc)])
                  @ ''</p></text>'')
           else Inl IndexError)
        \<and> (\<forall>pre suf.
              concat (map (s_element (pos doc) (sentences doc)) [0..<length (sentences doc)])
                \<noteq> pre @ ''<p'' @ suf
              \<and> concat (map (s_element (pos doc) (sentences doc)) [0..<length (sentences doc)])
                \<noteq> pre @ ''</p'' @ suf))\<close>
proof -
  have brk: "p_break (pars_of doc) (sentences doc) s =
      (case paragraphs doc of
         None \<Rightarrow> []
       | Some bs \<Rightarrow>
           if tok_offset (sentences doc) (Suc s) - 1 \<in> snd ` set bs
              \<and> int (boundaries_before (pars_of doc) (sentences doc) s)
                  < int (card (snd ` set bs)) - 1
           then ''</p><p>'' else [])" for s
    by (simp add: p_break_def at_boundary_def par_limit_def pars_of_def split: option.splits)
  have general: "build_text doc =
     (if pos_ok doc then
        Inr (''<text><p>''
             @ concat (map (\<lambda>s.
                 s_element (pos doc) (sentences doc) s
                 @ (case paragraphs doc of
                      None \<Rightarrow> []
                    | Some bs \<Rightarrow>
                        if tok_offset (sentences doc) (Suc s) - 1 \<in> snd ` set bs
                           \<and> int (boundaries_before (pars_of doc) (sentences doc) s)
                               < int (card (snd ` set bs)) - 1
                        then ''</p><p>'' else []))
               [0..<length (sentences doc)])
             @ ''</p></text>'')
      else Inl IndexError)"
    unfolding build_text_total [of doc] text_body_def brk ..
  show ?thesis
  proof (cases "paragraphs doc")
    case None
    have "build_text doc =
       (if pos_ok doc then
          Inr (''<text><p>''
               @ concat (map (s_element (pos doc) (sentences doc))
                           [0..<length (sentences doc)])
               @ ''</p></text>'')
        else Inl IndexError)"
      unfolding build_text_total [of doc] text_body_def brk by (simp add: None)
    with general s_elements_no_p [of "pos doc" "sentences doc" "[0..<length (sentences doc)]"]
    show ?thesis by blast
  next
    case (Some bs)
    with general show ?thesis by simp
  qed
qed

theorem paragraph_breaks_after_sentences_witness:
  \<open>pos_ok doc_tagged
   \<and> paragraphs doc_tagged = Some [(0, 1), (2, 2)]
   \<and> build_text doc_tagged = Inr (
      ''<text><p><s n="0"><w id="w_export_0" n="0"><txm:form>A</txm:form>''
      @ ''<txm:ana resp="#txm" type="#frpos">X</txm:ana></w><w id="w_export_1" n="1">''
      @ ''<txm:form>B&lt;&amp;</txm:form><txm:ana resp="#txm" type="#frpos">Y</txm:ana></w>''
      @ ''</s></p><p><s n="1"><w id="w_export_2" n="2"><txm:form>C</txm:form>''
      @ ''<txm:ana resp="#txm" type="#frpos">Z&gt;</txm:ana></w></s></p></text>'')
   \<and> pos_ok doc_two_A
   \<and> paragraphs doc_two_A = None
   \<and> build_text doc_two_A = Inr (
      ''<text><p><s n="0"><w id="w_export_0" n="0"><txm:form>A</txm:form></w>''
      @ ''<w id="w_export_1" n="1"><txm:form>B</txm:form></w></s><s n="1">''
      @ ''<w id="w_export_2" n="2"><txm:form>C</txm:form></w></s></p></text>'')\<close>
proof -
  have a: "pos_ok doc_tagged"
    by (simp add: pos_ok_def tags_cover_def doc_tagged_def)
  have b: "pos_ok doc_two_A"
    by (simp add: pos_ok_def tags_cover_def doc_two_A_def)
  have c: "paragraphs doc_two_A = None"
    by (simp add: doc_two_A_def)
  have with_boundaries: \<open>build_text doc_tagged = Inr (
      ''<text><p><s n="0"><w id="w_export_0" n="0"><txm:form>A</txm:form>''
      @ ''<txm:ana resp="#txm" type="#frpos">X</txm:ana></w><w id="w_export_1" n="1">''
      @ ''<txm:form>B&lt;&amp;</txm:form><txm:ana resp="#txm" type="#frpos">Y</txm:ana></w>''
      @ ''</s></p><p><s n="1"><w id="w_export_2" n="2"><txm:form>C</txm:form>''
      @ ''<txm:ana resp="#txm" type="#frpos">Z&gt;</txm:ana></w></s></p></text>'')\<close>
    using a paragraph_breaks_after_sentences [of doc_tagged]
    by (simp add: doc_tagged_def tok_offset_def s_element_def w_element_def w_id_def
        w_content_def tag_of_def boundaries_before_def at_boundary_def pars_of_def
        escape_def replace_char_def str_nat.simps str_int_def digit_char_def)
  have without: \<open>build_text doc_two_A = Inr (
      ''<text><p><s n="0"><w id="w_export_0" n="0"><txm:form>A</txm:form></w>''
      @ ''<w id="w_export_1" n="1"><txm:form>B</txm:form></w></s><s n="1">''
      @ ''<w id="w_export_2" n="2"><txm:form>C</txm:form></w></s></p></text>'')\<close>
    using b c paragraph_breaks_after_sentences [of doc_two_A]
    by (simp add: doc_two_A_def tok_offset_def s_element_def w_element_def w_id_def
        w_content_def tag_of_def escape_def replace_char_def str_nat.simps str_int_def
        digit_char_def)
  show ?thesis
    using a b c with_boundaries without by (simp add: doc_tagged_def)
qed

text \<open>
  Claim C9.  \<open>jsonlines2tei\<close> returns exactly when both renderers return, and then it
  writes two files, the text document to \<open><stem>.xml\<close> in the text directory and
  the annotation document to \<open><stem>-urs.xml\<close> in the annotation directory.  The
  stem is the \<open>doc_key\<close> in which every character outside the class
  \<open>[-a-zA-Z0-9_]\<close> is replaced by an underscore and then every run of underscores
  is collapsed into one: all its characters are in the class, no two underscores
  stand side by side, and \<open>nw/docname:01\<close> gives \<open>nw_docname_01\<close>.
\<close>

theorem output_file_names:
  "jsonlines2tei doc xml_dir urs_dir first =
     (if pos_ok doc \<and> [] \<notin> set (clusters doc) then
        Some (Inr [(path_join xml_dir (stem doc @ ''.xml''),
                    fst (get_teis doc (''<text><p>'' @ text_body doc @ ''</p></text>'')
                           (urs_document (spans_of (clusters doc)) (links_of (clusters doc))
                              (unit_fs_of (clusters doc)) (schema_fs_of (clusters doc))))),
                   (path_join urs_dir (stem doc @ ''-urs.xml''),
                    snd (get_teis doc (''<text><p>'' @ text_body doc @ ''</p></text>'')
                           (urs_document (spans_of (clusters doc)) (links_of (clusters doc))
                              (unit_fs_of (clusters doc)) (schema_fs_of (clusters doc)))))])
      else Some (Inl IndexError))
   \<and> stem doc = collapse_runs (map (\<lambda>c. if in_class c then c else CHR ''_'') (doc_key doc))
   \<and> (\<forall>c \<in> set (stem doc). in_class c)
   \<and> no_run (stem doc)
   \<and> (doc_key doc = ''nw/docname:01'' \<longrightarrow> stem doc = ''nw_docname_01'')"
proof -
  have files: "jsonlines2tei doc xml_dir urs_dir first =
     (if pos_ok doc \<and> [] \<notin> set (clusters doc) then
        Some (Inr [(path_join xml_dir (stem doc @ ''.xml''),
                    fst (get_teis doc (''<text><p>'' @ text_body doc @ ''</p></text>'')
                           (urs_document (spans_of (clusters doc)) (links_of (clusters doc))
                              (unit_fs_of (clusters doc)) (schema_fs_of (clusters doc))))),
                   (path_join urs_dir (stem doc @ ''-urs.xml''),
                    snd (get_teis doc (''<text><p>'' @ text_body doc @ ''</p></text>'')
                           (urs_document (spans_of (clusters doc)) (links_of (clusters doc))
                              (unit_fs_of (clusters doc)) (schema_fs_of (clusters doc)))))])
      else Some (Inl IndexError))"
    by (simp add: jsonlines2tei_def build_text_total build_urs_total stem_def Let_def
        split: prod.splits)
  have spec: "stem doc = collapse_runs (map (\<lambda>c. if in_class c then c else CHR ''_'') (doc_key doc))"
    by (simp add: stem_def sub_underscores_collapse_runs sub_not_in_class_def)
  have chars: "\<forall>c \<in> set (stem doc). in_class c"
    using stem_in_class by blast
  have runs: "no_run (stem doc)"
    by (simp add: stem_def sub_underscores_no_run)
  have example: "doc_key doc = ''nw/docname:01'' \<longrightarrow> stem doc = ''nw_docname_01''"
    by (simp add: stem_def sub_not_in_class_def in_class_def)
  show ?thesis
    using files spec chars runs example by blast
qed

theorem output_file_names_witness:
  "pos_ok doc_tagged \<and> [] \<notin> set (clusters doc_tagged)
   \<and> doc_key doc_tagged = ''nw/docname:01''
   \<and> map_option (map_sum id (map fst)) (jsonlines2tei doc_tagged ''xml'' ''urs/'' True) =
       Some (Inr [''xml/nw_docname_01.xml'', ''urs/nw_docname_01-urs.xml''])"
proof -
  have a: "pos_ok doc_tagged"
    by (simp add: pos_ok_def tags_cover_def doc_tagged_def)
  have b: "[] \<notin> set (clusters doc_tagged)"
    by (simp add: doc_tagged_def)
  have c: "doc_key doc_tagged = ''nw/docname:01''"
    by (simp add: doc_tagged_def)
  have d: "stem doc_tagged = ''nw_docname_01''"
    using output_file_names [of doc_tagged] c by blast
  have "map_option (map_sum id (map fst)) (jsonlines2tei doc_tagged ''xml'' ''urs/'' True) =
      Some (Inr [path_join ''xml'' (stem doc_tagged @ ''.xml''),
                 path_join ''urs/'' (stem doc_tagged @ ''-urs.xml'')])"
    using output_file_names [of doc_tagged "''xml''" "''urs/''" True] a b by simp
  then show ?thesis
    using a b c by (simp add: d path_join_def)
qed

text \<open>
  Claim C10.  The text renderer returns exactly when the tags, if any, cover every
  token.  Then every token stands in its \<open>txm:form\<close> element, and every tag in its
  \<open>txm:ana\<close> element, as the result of \<open>escape\<close>; and a result of \<open>escape\<close>
  holds no angle bracket, and no ampersand other than the first character of
  \<open>&amp;\<close>, \<open>&gt;\<close> or \<open>&lt;\<close>.
\<close>

theorem tokens_and_tags_escaped:
  \<open>build_text doc =
     (if pos_ok doc then
        Inr (''<text><p>''
             @ concat (map (\<lambda>s.
                 ''<s n="'' @ str_nat s @ ''">''
                 @ concat (map (\<lambda>t_local.
                     ''<w id="'' @ w_id (tok_offset (sentences doc) s + int t_local)
                     @ ''" n="'' @ str_int (tok_offset (sentences doc) s + int t_local) @ ''">''
                     @ ''<txm:form>'' @ escape (sentences doc ! s ! t_local) @ ''</txm:form>''
                     @ (case pos doc of
                          None \<Rightarrow> []
                        | Some tags \<Rightarrow>
                            ''<txm:ana resp="#txm" type="#frpos">'' @ escape (tags ! s ! t_local)
                            @ ''</txm:ana>'')
                     @ ''</w>'')
                   [0..<length (sentences doc ! s)])
                 @ ''</s>'' @ p_break (pars_of doc) (sentences doc) s)
               [0..<length (sentences doc)])
             @ ''</p></text>'')
      else Inl IndexError)
   \<and> (\<forall>data. CHR ''<'' \<notin> set (escape data) \<and> CHR ''>'' \<notin> set (escape data)
               \<and> entities_only (escape data))\<close>
proof -
  have content: \<open>w_content (tag_of (pos doc) s i) token =
      ''<txm:form>'' @ escape token @ ''</txm:form>''
      @ (case pos doc of
           None \<Rightarrow> []
         | Some tags \<Rightarrow>
             ''<txm:ana resp="#txm" type="#frpos">'' @ escape (tags ! s ! i) @ ''</txm:ana>'')\<close>
    for s i token
    by (simp add: w_content_def tag_of_def split: option.splits)
  have safe: "CHR ''<'' \<notin> set (escape data) \<and> CHR ''>'' \<notin> set (escape data)
      \<and> entities_only (escape data)" for data
    using escape_no_markup [of data] by (simp add: no_markup_def)
  show ?thesis
    unfolding build_text_total [of doc] text_body_def s_element_def w_element_def content
    using safe by simp
qed

theorem tokens_and_tags_escaped_witness:
  \<open>pos_ok doc_tagged
   \<and> escape ''B<&'' = ''B&lt;&amp;'' \<and> escape ''Z>'' = ''Z&gt;''
   \<and> build_text doc_tagged = Inr (
      ''<text><p><s n="0"><w id="w_export_0" n="0"><txm:form>A</txm:form>''
      @ ''<txm:ana resp="#txm" type="#frpos">X</txm:ana></w><w id="w_export_1" n="1">''
      @ ''<txm:form>B&lt;&amp;</txm:form><txm:ana resp="#txm" type="#frpos">Y</txm:ana></w>''
      @ ''</s></p><p><s n="1"><w id="w_export_2" n="2"><txm:form>C</txm:form>''
      @ ''<txm:ana resp="#txm" type="#frpos">Z&gt;</txm:ana></w></s></p></text>'')\<close>
proof -
  have a: "pos_ok doc_tagged"
    by (simp add: pos_ok_def tags_cover_def doc_tagged_def)
  show ?thesis
    using a tokens_and_tags_escaped [of doc_tagged]
    by (simp add: doc_tagged_def tok_offset_def w_id_def p_break_def
        boundaries_before_def at_boundary_def par_limit_def pars_of_def
        escape_def replace_char_def str_nat.simps str_int_def digit_char_def)
qed

end
